theory Spec2Isabelle
  imports Complex_Main "HOL-Library.AList" "HOL-Library.Char_ord" "HOL-Library.List_Lexorder"
    "HOL-Library.Multiset"
begin

section \<open>Common data\<close>

text \<open>
  The exceptions that the modelled code paths can raise.  \<open>ValueError\<close> is the
  ``Contradictory paths found: negative weights?'' error of the shortest-path routine,
  \<open>KeyError\<close> a failed dictionary or label lookup, \<open>NameError\<close> a read of an
  unbound name, \<open>AttributeError\<close> a read of an attribute that an object lacks.
\<close>

datatype error = ValueError | KeyError | NameError string | AttributeError

text \<open>
  Location identifiers are integers.  Distances are exact rational numbers (they include
  the Python integers); the rounding of binary floating point is outside this model.
\<close>

type_synonym location = int
type_synonym edge_row = "location \<times> location \<times> rat"

section \<open>python\_task\_2: the graph\<close>

text \<open>
  \<open>nx.Graph\<close> keeps its adjacency in \<open>G._adj\<close>, a dictionary from a node to the
  dictionary of its neighbours; Python dictionaries keep insertion order, so both levels
  are association lists.  The only edge attribute ever set is \<open>distance\<close>, so the
  attribute dictionary of an edge is represented by that number.
\<close>

type_synonym adjacency = "(location \<times> (location \<times> rat) list) list"

definition has_node :: "adjacency \<Rightarrow> location \<Rightarrow> bool" where
  "has_node G u = (map_of G u \<noteq> None)"

definition add_node :: "adjacency \<Rightarrow> location \<Rightarrow> adjacency" where
  "add_node G u = (if has_node G u then G else G @ [(u, [])])"

definition set_adj :: "adjacency \<Rightarrow> location \<Rightarrow> location \<Rightarrow> rat \<Rightarrow> adjacency" where
  "set_adj G u v d =
     (case map_of G u of
        None \<Rightarrow> G
      | Some nbrs \<Rightarrow> AList.update u (AList.update v d nbrs) G)"

text \<open>
  \<open>G.add_edge(u, v, distance=d)\<close>: both endpoints become nodes if they are not yet,
  then \<open>_adj[u][v]\<close> and \<open>_adj[v][u]\<close> are set to the attribute dictionary updated
  with \<open>d\<close>, which overwrites a distance stored before.
\<close>

definition add_edge :: "adjacency \<Rightarrow> location \<Rightarrow> location \<Rightarrow> rat \<Rightarrow> adjacency" where
  "add_edge G u v d = set_adj (set_adj (add_node (add_node G u) v) u v d) v u d"

fun build_graph :: "adjacency \<Rightarrow> edge_row list \<Rightarrow> adjacency" where
  "build_graph G [] = G"
| "build_graph G ((a, b, d) # rows) = build_graph (add_edge G a b d) rows"

section \<open>python\_task\_2: Dijkstra's algorithm as the graph library runs it\<close>

text \<open>
  The state of \<open>_dijkstra_multisource\<close>: the final distances \<open>dist\<close>, the best
  distances \<open>seen\<close> so far, the heap \<open>fringe\<close> of triples (distance, counter, node)
  and the counter \<open>c\<close>.  The heap is a list; \<open>heappop\<close> removes its least triple.
\<close>

type_synonym entry = "rat \<times> nat \<times> location"

record dstate =
  dist_d :: "location \<rightharpoonup> rat"
  seen_d :: "location \<rightharpoonup> rat"
  fringe :: "entry list"
  counter :: nat

fun entry_less :: "entry \<Rightarrow> entry \<Rightarrow> bool" where
  "entry_less (d1, c1, v1) (d2, c2, v2) =
     (d1 < d2 \<or> (d1 = d2 \<and> (c1 < c2 \<or> (c1 = c2 \<and> v1 < v2))))"

fun smallest :: "entry \<Rightarrow> entry list \<Rightarrow> entry" where
  "smallest m [] = m"
| "smallest m (e # es) = smallest (if entry_less e m then e else m) es"

fun heappop :: "entry list \<Rightarrow> (entry \<times> entry list) option" where
  "heappop [] = None"
| "heappop (e # es) = (let m = smallest e es in Some (m, remove1 m (e # es)))"

definition heappush :: "entry list \<Rightarrow> entry \<Rightarrow> entry list" where
  "heappush fr e = fr @ [e]"

text \<open>
  The body of the loop over \<open>G_succ[v].items()\<close> for one neighbour \<open>u\<close> with edge
  weight \<open>cost\<close>; \<open>dv\<close> is \<open>dist[v]\<close>.
\<close>

definition relax :: "rat \<Rightarrow> location \<times> rat \<Rightarrow> dstate \<Rightarrow> error + dstate" where
  "relax dv e s =
     (case e of (u, cost) \<Rightarrow>
        let vu_dist = dv + cost in
        (case dist_d s u of
           Some u_dist \<Rightarrow> if vu_dist < u_dist then Inl ValueError else Inr s
         | None \<Rightarrow>
             if seen_d s u = None \<or> vu_dist < the (seen_d s u)
             then Inr (s\<lparr>seen_d := (seen_d s)(u \<mapsto> vu_dist),
                         fringe := heappush (fringe s) (vu_dist, counter s, u),
                         counter := Suc (counter s)\<rparr>)
             else Inr s))"

fun relax_all :: "rat \<Rightarrow> (location \<times> rat) list \<Rightarrow> dstate \<Rightarrow> error + dstate" where
  "relax_all dv [] s = Inr s"
| "relax_all dv (e # es) s =
     (case relax dv e s of Inl err \<Rightarrow> Inl err | Inr s' \<Rightarrow> relax_all dv es s')"

definition graph_nodes :: "adjacency \<Rightarrow> location set" where
  "graph_nodes G = fst ` set G \<union> (\<Union>(v, nbrs) \<in> set G. fst ` set nbrs)"

definition fringe_nodes :: "dstate \<Rightarrow> location set" where
  "fringe_nodes s = (\<lambda>e. snd (snd e)) ` set (fringe s)"

definition pending :: "adjacency \<Rightarrow> dstate \<Rightarrow> location set" where
  "pending G s = (graph_nodes G \<union> fringe_nodes s) - dom (dist_d s)"

lemma finite_pending: "finite (pending G s)"
  by (simp add: pending_def graph_nodes_def fringe_nodes_def split_beta)

lemma smallest_in: "smallest m es \<in> insert m (set es)"
  by (induction es arbitrary: m) auto

lemma heappop_Some:
  assumes "heappop fr = Some (m, rest)"
  shows "m \<in> set fr" and "rest = remove1 m fr"
proof -
  obtain e es where fr: "fr = e # es"
    using assms by (cases fr) auto
  with assms have m: "m = smallest e es" and r: "rest = remove1 m (e # es)"
    by (auto simp: Let_def)
  show "m \<in> set fr" using smallest_in[of e es] m fr by simp
  show "rest = remove1 m fr" using r fr by simp
qed

lemma heappop_subset: "heappop fr = Some (m, rest) \<Longrightarrow> set rest \<subseteq> set fr"
  using heappop_Some(2)[of fr m rest] set_remove1_subset[of m fr] by simp

lemma heappop_length:
  assumes "heappop fr = Some (m, rest)"
  shows "length rest < length fr"
proof -
  from heappop_Some[OF assms] have "m \<in> set fr" and "rest = remove1 m fr" by auto
  then show ?thesis
    using length_pos_if_in_set[of m fr] by (simp add: length_remove1)
qed

lemma relax_dist: "relax dv e s = Inr s' \<Longrightarrow> dist_d s' = dist_d s"
  by (auto simp: relax_def Let_def split: prod.splits option.splits if_splits)

lemma relax_fringe_nodes:
  "relax dv e s = Inr s' \<Longrightarrow> fringe_nodes s' \<subseteq> insert (fst e) (fringe_nodes s)"
  by (auto simp: relax_def Let_def heappush_def fringe_nodes_def
      split: prod.splits option.splits if_splits)

lemma relax_all_dist: "relax_all dv es s = Inr s' \<Longrightarrow> dist_d s' = dist_d s"
  by (induction es arbitrary: s) (auto split: sum.splits dest: relax_dist)

lemma relax_all_fringe_nodes:
  "relax_all dv es s = Inr s' \<Longrightarrow> fringe_nodes s' \<subseteq> fst ` set es \<union> fringe_nodes s"
proof (induction es arbitrary: s)
  case Nil
  then show ?case by simp
next
  case (Cons e es)
  from Cons.prems obtain s1 where s1: "relax dv e s = Inr s1" and r: "relax_all dv es s1 = Inr s'"
    by (auto split: sum.splits)
  from Cons.IH[OF r] relax_fringe_nodes[OF s1] show ?case by auto
qed

text \<open>
  The \<open>while fringe\<close> loop.  A popped node that is already in \<open>dist\<close> is skipped;
  otherwise its distance becomes final and its neighbours are relaxed.
  \<open>G_succ[v]\<close> of a node that is not in the graph is a \<open>KeyError\<close>.
\<close>

function dijkstra_loop :: "adjacency \<Rightarrow> dstate \<Rightarrow> error + (location \<rightharpoonup> rat)" where
  "dijkstra_loop G s =
     (case heappop (fringe s) of
        None \<Rightarrow> Inr (dist_d s)
      | Some ((d, c, v), rest) \<Rightarrow>
          if dist_d s v \<noteq> None then dijkstra_loop G (s\<lparr>fringe := rest\<rparr>)
          else
            (case map_of G v of
               None \<Rightarrow> Inl KeyError
             | Some nbrs \<Rightarrow>
                 (case relax_all d nbrs (s\<lparr>dist_d := (dist_d s)(v \<mapsto> d), fringe := rest\<rparr>) of
                    Inl err \<Rightarrow> Inl err
                  | Inr s' \<Rightarrow> dijkstra_loop G s')))"
  by pat_completeness auto
termination
proof (relation "inv_image (less_than <*lex*> less_than)
                   (\<lambda>(G, s). (card (pending G s), length (fringe s)))", goal_cases)
  case 1
  show ?case by (intro wf_inv_image wf_lex_prod wf_less_than)
next
  case (2 G s x2 m rest d x2a c v)
  then have pop: "heappop (fringe s) = Some ((d, c, v), rest)" by simp
  have "dom (dist_d s) = dom (dist_d (s\<lparr>fringe := rest\<rparr>))" by simp
  moreover have "fringe_nodes (s\<lparr>fringe := rest\<rparr>) \<subseteq> fringe_nodes s"
    using heappop_subset[OF pop] by (auto simp: fringe_nodes_def)
  ultimately have "pending G (s\<lparr>fringe := rest\<rparr>) \<subseteq> pending G s"
    by (auto simp: pending_def)
  then have "card (pending G (s\<lparr>fringe := rest\<rparr>)) \<le> card (pending G s)"
    by (rule card_mono[OF finite_pending])
  moreover have "length rest < length (fringe s)"
    by (rule heappop_length[OF pop])
  ultimately show ?case by auto
next
  case (3 G s x2 m rest d x2a c v nbrs s')
  then have pop: "heappop (fringe s) = Some ((d, c, v), rest)"
    and nd: "dist_d s v = None"
    and nb: "map_of G v = Some nbrs"
    and rl: "relax_all d nbrs (s\<lparr>dist_d := (dist_d s)(v \<mapsto> d), fringe := rest\<rparr>) = Inr s'"
    by simp_all
  have vin: "v \<in> fringe_nodes s"
    using heappop_Some(1)[OF pop] by (force simp: fringe_nodes_def)
  have d': "dist_d s' = (dist_d s)(v \<mapsto> d)"
    using relax_all_dist[OF rl] by simp
  have "fst ` set nbrs \<subseteq> graph_nodes G"
    using map_of_SomeD[OF nb] by (force simp: graph_nodes_def)
  moreover have "fringe_nodes (s\<lparr>dist_d := (dist_d s)(v \<mapsto> d), fringe := rest\<rparr>) \<subseteq> fringe_nodes s"
    using heappop_subset[OF pop] by (auto simp: fringe_nodes_def)
  ultimately have "fringe_nodes s' \<subseteq> graph_nodes G \<union> fringe_nodes s"
    using relax_all_fringe_nodes[OF rl] by blast
  then have "pending G s' \<subseteq> pending G s - {v}"
    using d' by (auto simp: pending_def)
  moreover have "v \<in> pending G s"
    using vin nd by (auto simp: pending_def)
  ultimately have "pending G s' \<subset> pending G s" by blast
  then have "card (pending G s') < card (pending G s)"
    by (rule psubset_card_mono[OF finite_pending])
  then show ?case by simp
qed

text \<open>
  \<open>single_source_dijkstra_path_length(G, n)\<close> runs the loop from the one source
  \<open>n\<close>: \<open>seen[n] = 0\<close> and the heap holds \<open>(0, 0, n)\<close>.
\<close>

definition dijkstra_multisource :: "adjacency \<Rightarrow> location \<Rightarrow> error + (location \<rightharpoonup> rat)" where
  "dijkstra_multisource G source =
     dijkstra_loop G \<lparr>dist_d = Map.empty, seen_d = [source \<mapsto> 0],
                      fringe = heappush [] (0, 0, source), counter = 1\<rparr>"

text \<open>
  \<open>dict(nx.all_pairs_dijkstra_path_length(G, weight='distance'))\<close>: one run per node
  of \<open>G\<close>, in the order of the nodes; the first exception ends the whole call.
\<close>

fun all_pairs :: "adjacency \<Rightarrow> location list \<Rightarrow> error + (location \<times> (location \<rightharpoonup> rat)) list" where
  "all_pairs G [] = Inr []"
| "all_pairs G (n # ns) =
     (case dijkstra_multisource G n of
        Inl err \<Rightarrow> Inl err
      | Inr length_n \<Rightarrow>
          (case all_pairs G ns of
             Inl err \<Rightarrow> Inl err
           | Inr r \<Rightarrow> Inr ((n, length_n) # r)))"

definition all_pairs_dijkstra_path_length ::
  "adjacency \<Rightarrow> error + (location \<times> (location \<rightharpoonup> rat)) list" where
  "all_pairs_dijkstra_path_length G = all_pairs G (map fst G)"

section \<open>python\_task\_2: the distance matrix\<close>

text \<open>
  A \<open>DataFrame\<close> with row labels, column labels and one cell for each pair of labels.
  A cell holds a number or the missing-value marker (\<open>NaN\<close>/\<open>None\<close>), which is
  \<open>None\<close> here.  \<open>pd.DataFrame(index=.., columns=..)\<close> has every cell missing.
  An assignment through \<open>.loc\<close> to a label that does not exist enlarges the frame;
  a read of such a label raises \<open>KeyError\<close>.
\<close>

record dataframe =
  index :: "location list"
  columns :: "location list"
  cells :: "location \<times> location \<Rightarrow> rat option"

definition new_frame :: "location list \<Rightarrow> location list \<Rightarrow> dataframe" where
  "new_frame idx cols = \<lparr>index = idx, columns = cols, cells = (\<lambda>_. None)\<rparr>"

definition loc_set :: "dataframe \<Rightarrow> location \<Rightarrow> location \<Rightarrow> rat option \<Rightarrow> dataframe" where
  "loc_set m i j x =
     \<lparr>index = (if i \<in> set (index m) then index m else index m @ [i]),
      columns = (if j \<in> set (columns m) then columns m else columns m @ [j]),
      cells = (cells m)((i, j) := x)\<rparr>"

definition loc_get :: "dataframe \<Rightarrow> location \<Rightarrow> location \<Rightarrow> error + rat option" where
  "loc_get m i j =
     (if i \<in> set (index m) \<and> j \<in> set (columns m) then Inr (cells m (i, j)) else Inl KeyError)"

text \<open>\<open>Series.unique()\<close>: the distinct values in the order of their first appearance.\<close>

fun unique :: "location list \<Rightarrow> location list" where
  "unique [] = []"
| "unique (x # xs) = x # filter (\<lambda>y. y \<noteq> x) (unique xs)"

text \<open>\<open>b in all_pairs_shortest_paths[a]\<close>, guarded by \<open>a in all_pairs_shortest_paths\<close>.\<close>

definition known :: "(location \<times> (location \<rightharpoonup> rat)) list \<Rightarrow> location \<Rightarrow> location \<Rightarrow> bool" where
  "known apsp a b = (case map_of apsp a of None \<Rightarrow> False | Some lengths \<Rightarrow> lengths b \<noteq> None)"

definition path_length :: "(location \<times> (location \<rightharpoonup> rat)) list \<Rightarrow> location \<Rightarrow> location \<Rightarrow> rat option" where
  "path_length apsp a b = (case map_of apsp a of None \<Rightarrow> None | Some lengths \<Rightarrow> lengths b)"

text \<open>The body of the two nested loops over \<open>toll_locations\<close>.\<close>

definition fill_cell ::
  "(location \<times> (location \<rightharpoonup> rat)) list \<Rightarrow> dataframe \<Rightarrow> location \<Rightarrow> location \<Rightarrow> dataframe" where
  "fill_cell apsp m start_toll end_toll =
     (if start_toll = end_toll then loc_set m start_toll end_toll (Some 0)
      else if known apsp start_toll end_toll
        then loc_set m start_toll end_toll (path_length apsp start_toll end_toll)
      else if known apsp end_toll start_toll
        then loc_set m start_toll end_toll (path_length apsp end_toll start_toll)
      else loc_set m start_toll end_toll None)"

definition populate ::
  "(location \<times> (location \<rightharpoonup> rat)) list \<Rightarrow> location list \<Rightarrow> dataframe \<Rightarrow> dataframe" where
  "populate apsp toll_locations m =
     fold (\<lambda>start_toll m1. fold (\<lambda>end_toll m2. fill_cell apsp m2 start_toll end_toll)
                                  toll_locations m1)
          toll_locations m"

text \<open>
  \<open>calculate_distance_matrix(df)\<close>; a row of \<open>df\<close> is
  \<open>(id_start, id_end, distance)\<close>.  The labels of the matrix are
  \<open>sorted(df['id_start'].unique())\<close>.
\<close>

definition calculate_distance_matrix :: "edge_row list \<Rightarrow> error + dataframe" where
  "calculate_distance_matrix df =
     (let G = build_graph [] df in
      case all_pairs_dijkstra_path_length G of
        Inl err \<Rightarrow> Inl err
      | Inr all_pairs_shortest_paths \<Rightarrow>
          let toll_locations = sort (unique (map fst df));
              distance_matrix = new_frame toll_locations toll_locations
          in Inr (populate all_pairs_shortest_paths toll_locations distance_matrix))"

section \<open>python\_task\_2: unrolling the matrix\<close>

text \<open>
  A name that a function body only reads is looked up in the globals of its module (and
  then in the builtins, which have no \<open>distance_matrix\<close>).  The globals of
  \<open>python_task_2\<close> are the names its imports and its \<open>def\<close>s bind.
\<close>

datatype pyobj = Module string | Class string | Function string | Frame dataframe

type_synonym namespace = "(string \<times> pyobj) list"

definition python_task_2_globals :: namespace where
  "python_task_2_globals =
     [(''pd'', Module ''pandas''),
      (''nx'', Module ''networkx''),
      (''datetime'', Class ''datetime.datetime''),
      (''dt'', Module ''datetime''),
      (''calculate_distance_matrix'', Function ''calculate_distance_matrix''),
      (''unroll_distance_matrix'', Function ''unroll_distance_matrix''),
      (''find_ids_within_ten_percentage_threshold'',
         Function ''find_ids_within_ten_percentage_threshold''),
      (''calculate_toll_rate'', Function ''calculate_toll_rate''),
      (''calculate_time_based_toll_rates'', Function ''calculate_time_based_toll_rates'')]"

definition load_global :: "namespace \<Rightarrow> string \<Rightarrow> error + pyobj" where
  "load_global globals name =
     (case map_of globals name of None \<Rightarrow> Inl (NameError name) | Some obj \<Rightarrow> Inr obj)"

text \<open>
  \<open>unroll_distance_matrix(df)\<close>: the loops read the name \<open>distance_matrix\<close>, which
  the function never binds, so it is a global; the parameter \<open>df\<close> is not read.
\<close>

definition unroll_distance_matrix ::
  "namespace \<Rightarrow> dataframe \<Rightarrow> error + (location \<times> location \<times> rat option) list" where
  "unroll_distance_matrix globals df =
     (case load_global globals ''distance_matrix'' of
        Inl err \<Rightarrow> Inl err
      | Inr obj \<Rightarrow>
          (case obj of
             Frame distance_matrix \<Rightarrow>
               Inr (concat (map (\<lambda>id_start.
                      map (\<lambda>id_end. (id_start, id_end, cells distance_matrix (id_start, id_end)))
                          (filter (\<lambda>id_end. id_start \<noteq> id_end) (columns distance_matrix)))
                    (index distance_matrix)))
           | _ \<Rightarrow> Inl AttributeError))"

section \<open>python\_task\_1: numeric cells\<close>

text \<open>
  A numeric cell is an exact rational number or \<open>NaN\<close>.  A comparison with
  \<open>NaN\<close> is false and arithmetic on \<open>NaN\<close> gives \<open>NaN\<close>.
\<close>

datatype num = Num rat | NaN

fun num_gt :: "num \<Rightarrow> rat \<Rightarrow> bool" where
  "num_gt (Num x) c = (x > c)"
| "num_gt NaN c = False"

fun num_le :: "num \<Rightarrow> rat \<Rightarrow> bool" where
  "num_le (Num x) c = (x \<le> c)"
| "num_le NaN c = False"




section \<open>python\_task\_1: get\_type\_count\<close>

text \<open>
  \<open>pd.cut(x, bins, labels, include_lowest)\<close> with the default \<open>right=True\<close>: the
  value gets the label of the interval \<open>(lo, hi]\<close> of consecutive bin edges it lies in;
  with \<open>include_lowest\<close> the first interval also contains its left edge.  A value in
  no interval, and \<open>NaN\<close>, get no label.  A bin edge is a number or an infinity.
\<close>

datatype bound = NegInf | Fin rat | PosInf

fun below :: "bound \<Rightarrow> rat \<Rightarrow> bool" where
  "below NegInf x = True"
| "below (Fin b) x = (b < x)"
| "below PosInf x = False"

fun at_most :: "rat \<Rightarrow> bound \<Rightarrow> bool" where
  "at_most x NegInf = False"
| "at_most x (Fin b) = (x \<le> b)"
| "at_most x PosInf = True"

fun on_edge :: "bound \<Rightarrow> rat \<Rightarrow> bool" where
  "on_edge (Fin b) x = (x = b)"
| "on_edge _ x = False"

fun cut_value :: "bound list \<Rightarrow> string list \<Rightarrow> bool \<Rightarrow> rat \<Rightarrow> string option" where
  "cut_value (lo # hi # bins) (l # labels) lowest x =
     (if (below lo x \<or> (lowest \<and> on_edge lo x)) \<and> at_most x hi then Some l
      else cut_value (hi # bins) labels False x)"
| "cut_value _ _ _ _ = None"

definition cut :: "num list \<Rightarrow> bound list \<Rightarrow> string list \<Rightarrow> bool \<Rightarrow> string option list" where
  "cut xs bins labels include_lowest =
     map (\<lambda>x. case x of NaN \<Rightarrow> None | Num r \<Rightarrow> cut_value bins labels include_lowest r) xs"

text \<open>
  \<open>value_counts()\<close> of a categorical column: one count for every category, also a
  count of zero, the larger counts first.  \<open>to_dict()\<close> keeps that order; it is the
  association list here.
\<close>

definition value_counts :: "string list \<Rightarrow> string option list \<Rightarrow> (string \<times> nat) list" where
  "value_counts categories col =
     sort_key (\<lambda>(k, n). - int n) (map (\<lambda>k. (k, count_list col (Some k))) categories)"

text \<open>
  \<open>get_type_count(df)\<close>; the argument is the column \<open>df['car']\<close>.  The labels are
  also stored in \<open>df['car_type']\<close>, which the result does not depend on.
\<close>

definition car_type :: "num list \<Rightarrow> string option list" where
  "car_type car = cut car [NegInf, Fin 15, Fin 25, PosInf] [''low'', ''medium'', ''high''] True"

definition get_type_count :: "num list \<Rightarrow> (string \<times> nat) list" where
  "get_type_count car =
     (let type_counts = value_counts [''low'', ''medium'', ''high''] (car_type car);
          sorted_type_counts =
            map (\<lambda>key. (key, the (map_of type_counts key))) (sort (map fst type_counts))
      in sorted_type_counts)"

section \<open>python\_task\_1: multiply\_matrix\<close>









section \<open>python\_task\_2: what the claims speak of\<close>

text \<open>
  The weight the graph stores for the edge between two nodes, if there is one, and the
  paths of the graph with their total weight.
\<close>

definition adj :: "adjacency \<Rightarrow> location \<Rightarrow> location \<Rightarrow> rat option" where
  "adj G v u = (case map_of G v of None \<Rightarrow> None | Some nbrs \<Rightarrow> map_of nbrs u)"

inductive pathw :: "adjacency \<Rightarrow> location \<Rightarrow> location \<Rightarrow> rat \<Rightarrow> bool"
  for G :: adjacency and a :: location where
  pathw_refl: "pathw G a a 0"
| pathw_step: "pathw G a b x \<Longrightarrow> adj G b c = Some y \<Longrightarrow> pathw G a c (x + y)"



fun final_weight :: "edge_row list \<Rightarrow> location \<Rightarrow> location \<Rightarrow> rat option" where
  "final_weight [] a b = None"
| "final_weight ((x, y, d) # rows) a b =
     (case final_weight rows a b of
        Some d' \<Rightarrow> Some d'
      | None \<Rightarrow> if (x = a \<and> y = b) \<or> (x = b \<and> y = a) then Some d else None)"

text \<open>A valid input: at least one row, and no negative distance.\<close>

definition valid_input :: "edge_row list \<Rightarrow> bool" where
  "valid_input df = (df \<noteq> [] \<and> list_all (\<lambda>(a, b, d). 0 \<le> d) df)"

text \<open>
  A well-formed adjacency: the neighbour dictionaries have no repeated key, every
  neighbour is a node, and both directions of an edge carry the same weight.
\<close>

definition wf_graph :: "adjacency \<Rightarrow> bool" where
  "wf_graph G =
     ((\<forall>v nbrs. map_of G v = Some nbrs \<longrightarrow>
          distinct (map fst nbrs) \<and> (\<forall>u \<in> fst ` set nbrs. map_of G u \<noteq> None))
      \<and> (\<forall>v u. adj G v u = adj G u v))"

definition nonneg :: "adjacency \<Rightarrow> bool" where
  "nonneg G = (\<forall>v u y. adj G v u = Some y \<longrightarrow> 0 \<le> y)"

text \<open>
  The invariant of the \<open>while fringe\<close> loop for the source \<open>src\<close>.  The relation
  \<open>P\<close> names the edges \<open>(v, u)\<close> out of final nodes that have been relaxed already:
  all of them between two iterations, and a part of those of the popped node while its
  neighbours are being relaxed.
\<close>

definition dijkstra_inv ::
  "adjacency \<Rightarrow> location \<Rightarrow> (location \<Rightarrow> location \<Rightarrow> bool) \<Rightarrow> dstate \<Rightarrow> bool" where
  "dijkstra_inv G src P s =
     ((\<forall>v d. dist_d s v = Some d \<longrightarrow> pathw G src v d \<and> (\<forall>x. pathw G src v x \<longrightarrow> d \<le> x))
      \<and> (\<forall>e \<in> set (fringe s). pathw G src (snd (snd e)) (fst e) \<and> map_of G (snd (snd e)) \<noteq> None)
      \<and> (\<forall>u x. seen_d s u = Some x \<and> dist_d s u = None \<longrightarrow> (\<exists>c. (x, c, u) \<in> set (fringe s)))
      \<and> (\<forall>v dv u y. dist_d s v = Some dv \<and> adj G v u = Some y \<and> P v u \<longrightarrow>
            dist_d s u \<noteq> None \<or> (\<exists>x. seen_d s u = Some x \<and> x \<le> dv + y))
      \<and> (dist_d s src \<noteq> None \<or> (\<exists>c. (0, c, src) \<in> set (fringe s))))"

text \<open>
  The value the nested loops give to the cell of two labels, and the routes of the input:
  a route follows rows in either direction and counts, for each step, the weight of the
  last row that joins the two locations.
\<close>

definition cell_value ::
  "(location \<times> (location \<rightharpoonup> rat)) list \<Rightarrow> location \<Rightarrow> location \<Rightarrow> rat option" where
  "cell_value apsp i j =
     (if i = j then Some 0
      else if known apsp i j then path_length apsp i j
      else if known apsp j i then path_length apsp j i
      else None)"

inductive route :: "edge_row list \<Rightarrow> location \<Rightarrow> location \<Rightarrow> rat \<Rightarrow> bool"
  for df :: "edge_row list" and a :: location where
  route_refl: "route df a a 0"
| route_step: "route df a b x \<Longrightarrow> final_weight df b c = Some y \<Longrightarrow> route df a c (x + y)"


section \<open>Properties of unroll\_distance\_matrix\<close>

text \<open>
  Claim C10.  Called in the module as it is written, \<open>unroll_distance_matrix\<close> raises
  \<open>NameError\<close> for the name \<open>distance_matrix\<close> whatever frame it is given, and so
  never returns a result; in any global namespace its outcome does not depend on its
  parameter \<open>df\<close>.
\<close>

theorem unroll_distance_matrix_raises:
  "unroll_distance_matrix python_task_2_globals df = Inl (NameError ''distance_matrix'')
   \<and> unroll_distance_matrix globals df = unroll_distance_matrix globals df'"
  by (simp add: unroll_distance_matrix_def load_global_def python_task_2_globals_def)

section \<open>Properties of get\_type\_count\<close>

lemma count_low: "count_list (car_type car) (Some ''low'') = length (filter (\<lambda>x. num_le x 15) car)"
  by (induction car) (auto simp: car_type_def cut_def split: num.splits)

lemma count_medium:
  "count_list (car_type car) (Some ''medium'') = length (filter (\<lambda>x. num_gt x 15 \<and> num_le x 25) car)"
  by (induction car) (auto simp: car_type_def cut_def split: num.splits)

lemma count_high: "count_list (car_type car) (Some ''high'') = length (filter (\<lambda>x. num_gt x 25) car)"
  by (induction car) (auto simp: car_type_def cut_def split: num.splits)

lemma sorted_categories: "sort [''low'', ''medium'', ''high''] = [''high'', ''low'', ''medium'']"
  by code_simp

lemma value_counts_mset: "mset (map fst (value_counts cats col)) = mset cats"
proof -
  have "mset (map fst (value_counts cats col)) = image_mset fst (mset (value_counts cats col))"
    by simp
  also have "\<dots> = image_mset fst (mset (map (\<lambda>k. (k, count_list col (Some k))) cats))"
    unfolding value_counts_def by (simp only: mset_sort)
  also have "\<dots> = mset cats"
    by (simp add: multiset.map_comp comp_def)
  finally show ?thesis .
qed

lemma value_counts_keys: "sort (map fst (value_counts cats col)) = sort cats"
proof -
  have "mset (sort cats) = mset (map fst (value_counts cats col))"
    using value_counts_mset[of cats col] by simp
  then show ?thesis by (rule properties_for_sort) simp
qed

lemma value_counts_lookup:
  assumes "distinct cats" "k \<in> set cats"
  shows "map_of (value_counts cats col) k = Some (count_list col (Some k))"
proof -
  have "distinct (map fst (value_counts cats col))"
    using mset_eq_imp_distinct_iff[OF value_counts_mset[of cats col]] assms(1) by simp
  moreover have "(k, count_list col (Some k)) \<in> set (value_counts cats col)"
    using assms(2) by (auto simp: value_counts_def)
  ultimately show ?thesis by simp
qed

text \<open>
  Claim C9.  The bins of \<open>get_type_count\<close> are closed on the right: a value is
  labelled \<open>low\<close> iff it is at most 15, \<open>medium\<close> iff it is above 15 and at most
  25, \<open>high\<close> iff it is above 25.  The returned dictionary counts the values of each
  label and its keys come in ascending alphabetical order: high, low, medium.
\<close>

theorem get_type_count_buckets:
  "(car_type [x] = [Some ''low'']) = num_le x 15
   \<and> (car_type [x] = [Some ''medium'']) = (num_gt x 15 \<and> num_le x 25)
   \<and> (car_type [x] = [Some ''high'']) = num_gt x 25
   \<and> get_type_count car =
       [(''high'', length (filter (\<lambda>x. num_gt x 25) car)),
        (''low'', length (filter (\<lambda>x. num_le x 15) car)),
        (''medium'', length (filter (\<lambda>x. num_gt x 15 \<and> num_le x 25) car))]
   \<and> sorted (map fst (get_type_count car))"
proof -
  have a: "(car_type [x] = [Some ''low'']) = num_le x 15"
    by (cases x) (auto simp: car_type_def cut_def)
  have b: "(car_type [x] = [Some ''medium'']) = (num_gt x 15 \<and> num_le x 25)"
    by (cases x) (auto simp: car_type_def cut_def)
  have c: "(car_type [x] = [Some ''high'']) = num_gt x 25"
    by (cases x) (auto simp: car_type_def cut_def)
  have keys: "sort (map fst (value_counts [''low'', ''medium'', ''high''] (car_type car)))
                = [''high'', ''low'', ''medium'']"
    by (simp only: value_counts_keys sorted_categories)
  have dc: "distinct [''low'', ''medium'', ''high'']" by simp
  have d: "get_type_count car =
       [(''high'', length (filter (\<lambda>x. num_gt x 25) car)),
        (''low'', length (filter (\<lambda>x. num_le x 15) car)),
        (''medium'', length (filter (\<lambda>x. num_gt x 15 \<and> num_le x 25) car))]"
    unfolding get_type_count_def Let_def keys
    by (simp add: value_counts_lookup[OF dc] count_low count_medium count_high)
  have "sorted (sort [''low'', ''medium'', ''high''])" by (rule sorted_sort)
  then have e: "sorted (map fst (get_type_count car))"
    unfolding d sorted_categories by simp
  from a b c d e show ?thesis by blast
qed

section \<open>Properties of multiply\_matrix\<close>



section \<open>The graph built from the rows\<close>

lemma map_of_add_node:
  "map_of (add_node G u) = (if map_of G u = None then (map_of G)(u \<mapsto> []) else map_of G)"
  by (auto simp: add_node_def has_node_def map_of_append fun_eq_iff map_add_def split: option.splits)

lemma map_of_set_adj:
  "map_of (set_adj G u v d) =
     (case map_of G u of None \<Rightarrow> map_of G | Some nbrs \<Rightarrow> (map_of G)(u \<mapsto> AList.update v d nbrs))"
  by (simp add: set_adj_def update_conv' split: option.splits)

lemma adj_add_edge:
  "adj (add_edge G a b d) x y =
     (if (x = a \<and> y = b) \<or> (x = b \<and> y = a) then Some d else adj G x y)"
  by (auto simp: adj_def add_edge_def map_of_set_adj map_of_add_node update_conv'
      split: option.splits)

lemma dom_add_edge: "dom (map_of (add_edge G a b d)) = insert a (insert b (dom (map_of G)))"
  by (auto simp: add_edge_def map_of_set_adj map_of_add_node split: option.splits if_splits)

lemma wf_graph_add_node: 
  assumes "wf_graph G" shows "wf_graph (add_node G u)"
proof -
  have "adj (add_node G u) x y = adj G x y" for x y
    by (auto simp: adj_def map_of_add_node split: option.splits)
  then show ?thesis using assms
    by (auto simp: wf_graph_def map_of_add_node split: if_splits)
qed

lemma nbrs_set_adj:
  assumes "map_of (set_adj G u v d) x = Some nbrs"
  shows "\<exists>old. map_of G x = Some old \<and> (nbrs = old \<or> (x = u \<and> nbrs = AList.update v d old))"
  using assms by (auto simp: map_of_set_adj split: option.splits if_splits)

lemma dom_set_adj: "(map_of (set_adj G u v d) x = None) = (map_of G x = None)"
  by (auto simp: map_of_set_adj split: option.splits if_splits)

lemma nbrs_ok_set_adj:
  assumes ok: "\<forall>x nbrs. map_of G x = Some nbrs \<longrightarrow>
          distinct (map fst nbrs) \<and> (\<forall>y \<in> fst ` set nbrs. map_of G y \<noteq> None)"
    and v: "map_of G v \<noteq> None"
  shows "\<forall>x nbrs. map_of (set_adj G u v d) x = Some nbrs \<longrightarrow>
          distinct (map fst nbrs) \<and> (\<forall>y \<in> fst ` set nbrs. map_of (set_adj G u v d) y \<noteq> None)"
proof (intro allI impI)
  fix x nbrs assume a: "map_of (set_adj G u v d) x = Some nbrs"
  from nbrs_set_adj[OF a] obtain old where old: "map_of G x = Some old"
    and c: "nbrs = old \<or> (x = u \<and> nbrs = AList.update v d old)" by blast
  from ok old have o1: "distinct (map fst old)" and o2: "\<forall>y \<in> fst ` set old. map_of G y \<noteq> None"
    by blast+
  from c show "distinct (map fst nbrs) \<and> (\<forall>y \<in> fst ` set nbrs. map_of (set_adj G u v d) y \<noteq> None)"
  proof
    assume "nbrs = old" then show ?thesis using o1 o2 by (simp add: dom_set_adj)
  next
    assume "x = u \<and> nbrs = AList.update v d old"
    then show ?thesis using o1 o2 v
      by (simp add: dom_set_adj distinct_update dom_update)
  qed
qed

lemma wf_graph_add_edge:
  assumes "wf_graph G" shows "wf_graph (add_edge G a b d)"
proof -
  let ?G1 = "add_node (add_node G a) b"
  have w1: "wf_graph ?G1" using assms by (intro wf_graph_add_node)
  have na: "map_of ?G1 a \<noteq> None" and nb: "map_of ?G1 b \<noteq> None"
    by (auto simp: map_of_add_node)
  let ?G2 = "set_adj ?G1 a b d"
  have k1: "\<forall>x nbrs. map_of ?G1 x = Some nbrs \<longrightarrow>
          distinct (map fst nbrs) \<and> (\<forall>y \<in> fst ` set nbrs. map_of ?G1 y \<noteq> None)"
    using w1 unfolding wf_graph_def by blast
  have k2: "\<forall>x nbrs. map_of ?G2 x = Some nbrs \<longrightarrow>
          distinct (map fst nbrs) \<and> (\<forall>y \<in> fst ` set nbrs. map_of ?G2 y \<noteq> None)"
    by (rule nbrs_ok_set_adj[OF k1 nb])
  have na2: "map_of ?G2 a \<noteq> None" using na by (simp add: dom_set_adj)
  have k3: "\<forall>x nbrs. map_of (set_adj ?G2 b a d) x = Some nbrs \<longrightarrow>
          distinct (map fst nbrs) \<and> (\<forall>y \<in> fst ` set nbrs. map_of (set_adj ?G2 b a d) y \<noteq> None)"
    by (rule nbrs_ok_set_adj[OF k2 na2])
  have sym: "\<forall>v u. adj (add_edge G a b d) v u = adj (add_edge G a b d) u v"
    using assms unfolding wf_graph_def by (auto simp: adj_add_edge)
  show ?thesis
    unfolding wf_graph_def using k3 sym unfolding add_edge_def by blast
qed

lemma wf_graph_build: "wf_graph G \<Longrightarrow> wf_graph (build_graph G df)"
  by (induction G df rule: build_graph.induct) (auto intro: wf_graph_add_edge)

lemma wf_graph_empty: "wf_graph []"
  by (simp add: wf_graph_def adj_def)

lemma adj_build_graph:
  "adj (build_graph G df) a b = (case final_weight df a b of Some d \<Rightarrow> Some d | None \<Rightarrow> adj G a b)"
  by (induction G df rule: build_graph.induct) (auto simp: adj_add_edge split: option.splits)

lemma final_weight_SomeD:
  "final_weight df a b = Some d \<Longrightarrow> (a, b, d) \<in> set df \<or> (b, a, d) \<in> set df"
  by (induction df a b rule: final_weight.induct) (auto split: option.splits if_splits)


lemma dom_build_graph:
  "dom (map_of (build_graph G df)) = dom (map_of G) \<union> fst ` set df \<union> (\<lambda>r. fst (snd r)) ` set df"
  by (induction G df rule: build_graph.induct) (auto simp: dom_add_edge)

section \<open>Paths and the heap\<close>

lemma smallest_least:
  "fst (smallest m es) \<le> fst m \<and> (\<forall>e \<in> set es. fst (smallest m es) \<le> fst e)"
proof (induction es arbitrary: m)
  case Nil
  show ?case by simp
next
  case (Cons e es)
  let ?m = "if entry_less e m then e else m"
  have a: "fst ?m \<le> fst m" and b: "fst ?m \<le> fst e"
    by (cases e; cases m; auto)+
  from Cons.IH[of ?m] a b show ?case by auto
qed

lemma heappop_least:
  assumes "heappop fr = Some (m, rest)" and "e \<in> set fr"
  shows "fst m \<le> fst e"
proof -
  obtain x xs where fr: "fr = x # xs" using assms by (cases fr) auto
  with assms have m: "m = smallest x xs" by (auto simp: Let_def)
  show ?thesis using smallest_least[of x xs] assms(2) unfolding m fr by auto
qed

lemma heappop_keeps:
  assumes "heappop fr = Some (m, rest)" and "e \<in> set fr" and "e \<noteq> m"
  shows "e \<in> set rest"
  using heappop_Some(2)[OF assms(1)] assms(2,3) by simp

lemma heappop_None: "heappop fr = None \<Longrightarrow> fr = []"
  by (cases fr) (auto simp: Let_def)

lemma pathw_nonneg: "pathw G a b x \<Longrightarrow> nonneg G \<Longrightarrow> 0 \<le> x"
  by (induction rule: pathw.induct) (auto simp: nonneg_def)

lemma pathw_cons:
  assumes "pathw G b c x" and "adj G a b = Some y"
  shows "pathw G a c (y + x)"
  using assms
proof (induction rule: pathw.induct)
  case pathw_refl
  from pathw_step[OF pathw.pathw_refl[of G a] pathw_refl] show ?case by simp
next
  case (pathw_step c x d z)
  from pathw.pathw_step[OF pathw_step.IH[OF pathw_step.prems] pathw_step.hyps(2)]
  show ?case by (simp add: add.assoc)
qed

lemma pathw_rev:
  assumes "pathw G a b x" and "\<forall>v u. adj G v u = adj G u v"
  shows "pathw G b a x"
  using assms
proof (induction rule: pathw.induct)
  case pathw_refl
  show ?case by (rule pathw.pathw_refl)
next
  case (pathw_step b x c y)
  have "adj G c b = Some y" using pathw_step.hyps(2) pathw_step.prems by simp
  from pathw_cons[OF pathw_step.IH[OF pathw_step.prems] this]
  show ?case by (simp add: add.commute)
qed



text \<open>The frontier lemma: a path ends in a final node or passes a heap entry.\<close>

lemma frontier:
  assumes inv: "dijkstra_inv G src (\<lambda>v u. True) s" and nn: "nonneg G"
    and p: "pathw G src b x"
  shows "(\<exists>d. dist_d s b = Some d \<and> d \<le> x) \<or> (\<exists>e \<in> set (fringe s). fst e \<le> x)"
  using p
proof (induction rule: pathw.induct)
  case pathw_refl
  show ?case
  proof (cases "dist_d s src")
    case None
    with inv obtain c where "(0, c, src) \<in> set (fringe s)"
      unfolding dijkstra_inv_def by blast
    then show ?thesis by force
  next
    case (Some d)
    with inv have "d \<le> 0" using pathw.pathw_refl[of G src]
      unfolding dijkstra_inv_def by blast
    with Some show ?thesis by simp
  qed
next
  case (pathw_step b x c y)
  have y0: "0 \<le> y" using nn pathw_step.hyps(2) by (auto simp: nonneg_def)
  have pc: "pathw G src c (x + y)"
    by (rule pathw.pathw_step[OF pathw_step.hyps(1,2)])
  from pathw_step.IH show ?case
  proof
    assume "\<exists>d. dist_d s b = Some d \<and> d \<le> x"
    then obtain d where d: "dist_d s b = Some d" "d \<le> x" by blast
    show ?thesis
    proof (cases "dist_d s c")
      case (Some dc)
      with inv pc have "dc \<le> x + y" unfolding dijkstra_inv_def by blast
      with Some show ?thesis by simp
    next
      case None
      with inv d(1) pathw_step.hyps(2) obtain z where z: "seen_d s c = Some z" "z \<le> d + y"
        unfolding dijkstra_inv_def by blast
      with inv None obtain k where "(z, k, c) \<in> set (fringe s)"
        unfolding dijkstra_inv_def by blast
      moreover have "z \<le> x + y" using z(2) d(2) by simp
      ultimately show ?thesis by force
    qed
  next
    assume "\<exists>e \<in> set (fringe s). fst e \<le> x"
    then show ?thesis using y0 by force
  qed
qed

section \<open>Correctness of the shortest-path loop\<close>

lemma inv_dist: "dijkstra_inv G src P s \<Longrightarrow> dist_d s v = Some d \<Longrightarrow> pathw G src v d"
  unfolding dijkstra_inv_def by blast

lemma inv_min:
  "dijkstra_inv G src P s \<Longrightarrow> dist_d s v = Some d \<Longrightarrow> pathw G src v x \<Longrightarrow> d \<le> x"
  unfolding dijkstra_inv_def by blast

lemma inv_fringe:
  "dijkstra_inv G src P s \<Longrightarrow> (d, c, v) \<in> set (fringe s) \<Longrightarrow>
     pathw G src v d \<and> map_of G v \<noteq> None"
  unfolding dijkstra_inv_def by fastforce

lemma inv_seen:
  "dijkstra_inv G src P s \<Longrightarrow> seen_d s u = Some x \<Longrightarrow> dist_d s u = None \<Longrightarrow>
     \<exists>c. (x, c, u) \<in> set (fringe s)"
  unfolding dijkstra_inv_def by blast

lemma inv_edge:
  "dijkstra_inv G src P s \<Longrightarrow> dist_d s v = Some dv \<Longrightarrow> adj G v u = Some y \<Longrightarrow> P v u \<Longrightarrow>
     dist_d s u \<noteq> None \<or> (\<exists>x. seen_d s u = Some x \<and> x \<le> dv + y)"
  unfolding dijkstra_inv_def by blast

lemma inv_src:
  "dijkstra_inv G src P s \<Longrightarrow> dist_d s src \<noteq> None \<or> (\<exists>c. (0, c, src) \<in> set (fringe s))"
  unfolding dijkstra_inv_def by blast

lemma inv_I:
  assumes "\<And>v d. dist_d s v = Some d \<Longrightarrow> pathw G src v d"
    and "\<And>v d x. dist_d s v = Some d \<Longrightarrow> pathw G src v x \<Longrightarrow> d \<le> x"
    and "\<And>d c v. (d, c, v) \<in> set (fringe s) \<Longrightarrow> pathw G src v d \<and> map_of G v \<noteq> None"
    and "\<And>u x. seen_d s u = Some x \<Longrightarrow> dist_d s u = None \<Longrightarrow> \<exists>c. (x, c, u) \<in> set (fringe s)"
    and "\<And>v dv u y. dist_d s v = Some dv \<Longrightarrow> adj G v u = Some y \<Longrightarrow> P v u \<Longrightarrow>
            dist_d s u \<noteq> None \<or> (\<exists>x. seen_d s u = Some x \<and> x \<le> dv + y)"
    and "dist_d s src \<noteq> None \<or> (\<exists>c. (0, c, src) \<in> set (fringe s))"
  shows "dijkstra_inv G src P s"
  unfolding dijkstra_inv_def
proof (intro conjI)
  show "\<forall>v d. dist_d s v = Some d \<longrightarrow> pathw G src v d \<and> (\<forall>x. pathw G src v x \<longrightarrow> d \<le> x)"
    using assms(1,2) by blast
  show "\<forall>e\<in>set (fringe s). pathw G src (snd (snd e)) (fst e) \<and> map_of G (snd (snd e)) \<noteq> None"
    using assms(3) by auto
  show "\<forall>u x. seen_d s u = Some x \<and> dist_d s u = None \<longrightarrow> (\<exists>c. (x, c, u) \<in> set (fringe s))"
    using assms(4) by blast
  show "\<forall>v dv u y. dist_d s v = Some dv \<and> adj G v u = Some y \<and> P v u \<longrightarrow>
            dist_d s u \<noteq> None \<or> (\<exists>x. seen_d s u = Some x \<and> x \<le> dv + y)"
    using assms(5) by blast
  show "dist_d s src \<noteq> None \<or> (\<exists>c. (0, c, src) \<in> set (fringe s))"
    by (rule assms(6))
qed

lemma inv_weaken:
  assumes inv: "dijkstra_inv G src P s"
    and imp: "\<And>a b y. adj G a b = Some y \<Longrightarrow> Q a b \<Longrightarrow> P a b"
  shows "dijkstra_inv G src Q s"
proof (rule inv_I)
  show "\<And>v d. dist_d s v = Some d \<Longrightarrow> pathw G src v d" by (rule inv_dist[OF inv])
  show "\<And>v d x. dist_d s v = Some d \<Longrightarrow> pathw G src v x \<Longrightarrow> d \<le> x" by (rule inv_min[OF inv])
  show "\<And>d c v. (d, c, v) \<in> set (fringe s) \<Longrightarrow> pathw G src v d \<and> map_of G v \<noteq> None"
    by (rule inv_fringe[OF inv])
  show "\<And>u x. seen_d s u = Some x \<Longrightarrow> dist_d s u = None \<Longrightarrow> \<exists>c. (x, c, u) \<in> set (fringe s)"
    by (rule inv_seen[OF inv])
  show "\<And>v dv u y. dist_d s v = Some dv \<Longrightarrow> adj G v u = Some y \<Longrightarrow> Q v u \<Longrightarrow>
            dist_d s u \<noteq> None \<or> (\<exists>x. seen_d s u = Some x \<and> x \<le> dv + y)"
    using inv_edge[OF inv] imp by blast
  show "dist_d s src \<noteq> None \<or> (\<exists>c. (0, c, src) \<in> set (fringe s))" by (rule inv_src[OF inv])
qed

text \<open>Relaxing one edge out of a final node keeps the invariant and raises nothing.\<close>

lemma relax_inv:
  assumes inv: "dijkstra_inv G src P s"
    and dv: "dist_d s v = Some d"
    and e: "adj G v u = Some cost"
    and node: "map_of G u \<noteq> None"
  shows "\<exists>s'. relax d (u, cost) s = Inr s' \<and> dist_d s' = dist_d s
           \<and> dijkstra_inv G src (\<lambda>a b. P a b \<or> (a = v \<and> b = u)) s'"
proof -
  have pu: "pathw G src u (d + cost)"
    by (rule pathw_step[OF inv_dist[OF inv dv] e])
  show ?thesis
  proof (cases "dist_d s u")
    case (Some ud)
    have "ud \<le> d + cost" by (rule inv_min[OF inv Some pu])
    then have r: "relax d (u, cost) s = Inr s"
      using Some by (simp add: relax_def)
    have "dijkstra_inv G src (\<lambda>a b. P a b \<or> (a = v \<and> b = u)) s"
    proof (rule inv_I)
      show "\<And>v d. dist_d s v = Some d \<Longrightarrow> pathw G src v d" by (rule inv_dist[OF inv])
      show "\<And>v d x. dist_d s v = Some d \<Longrightarrow> pathw G src v x \<Longrightarrow> d \<le> x" by (rule inv_min[OF inv])
      show "\<And>d c v. (d, c, v) \<in> set (fringe s) \<Longrightarrow> pathw G src v d \<and> map_of G v \<noteq> None"
        by (rule inv_fringe[OF inv])
      show "\<And>u x. seen_d s u = Some x \<Longrightarrow> dist_d s u = None \<Longrightarrow> \<exists>c. (x, c, u) \<in> set (fringe s)"
        by (rule inv_seen[OF inv])
      show "\<And>a dv b y. dist_d s a = Some dv \<Longrightarrow> adj G a b = Some y \<Longrightarrow> P a b \<or> (a = v \<and> b = u) \<Longrightarrow>
            dist_d s b \<noteq> None \<or> (\<exists>x. seen_d s b = Some x \<and> x \<le> dv + y)"
        using inv_edge[OF inv] Some by blast
      show "dist_d s src \<noteq> None \<or> (\<exists>c. (0, c, src) \<in> set (fringe s))" by (rule inv_src[OF inv])
    qed
    with r show ?thesis by blast
  next
    case None
    show ?thesis
    proof (cases "seen_d s u = None \<or> d + cost < the (seen_d s u)")
      case False
      then obtain z where z: "seen_d s u = Some z" "z \<le> d + cost" by auto
      have r: "relax d (u, cost) s = Inr s"
        using None z by (simp add: relax_def Let_def not_less)
      have "dijkstra_inv G src (\<lambda>a b. P a b \<or> (a = v \<and> b = u)) s"
      proof (rule inv_I)
        show "\<And>v d. dist_d s v = Some d \<Longrightarrow> pathw G src v d" by (rule inv_dist[OF inv])
        show "\<And>v d x. dist_d s v = Some d \<Longrightarrow> pathw G src v x \<Longrightarrow> d \<le> x" by (rule inv_min[OF inv])
        show "\<And>d c v. (d, c, v) \<in> set (fringe s) \<Longrightarrow> pathw G src v d \<and> map_of G v \<noteq> None"
          by (rule inv_fringe[OF inv])
        show "\<And>u x. seen_d s u = Some x \<Longrightarrow> dist_d s u = None \<Longrightarrow> \<exists>c. (x, c, u) \<in> set (fringe s)"
          by (rule inv_seen[OF inv])
        show "dist_d s src \<noteq> None \<or> (\<exists>c. (0, c, src) \<in> set (fringe s))" by (rule inv_src[OF inv])
        fix a da b y
        assume a: "dist_d s a = Some da" "adj G a b = Some y" "P a b \<or> (a = v \<and> b = u)"
        show "dist_d s b \<noteq> None \<or> (\<exists>x. seen_d s b = Some x \<and> x \<le> da + y)"
        proof (cases "P a b")
          case True
          then show ?thesis by (rule inv_edge[OF inv a(1,2)])
        next
          case False
          with a(3) have "a = v" "b = u" by auto
          with a(1,2) dv e have "da = d" "y = cost" by auto
          with z \<open>b = u\<close> show ?thesis by simp
        qed
      qed
      with r show ?thesis by blast
    next
      case True
      let ?s' = "s\<lparr>seen_d := (seen_d s)(u \<mapsto> d + cost),
                   fringe := heappush (fringe s) (d + cost, counter s, u),
                   counter := Suc (counter s)\<rparr>"
      have r: "relax d (u, cost) s = Inr ?s'"
        using None True by (simp add: relax_def Let_def)
      have fr: "set (fringe ?s') = insert (d + cost, counter s, u) (set (fringe s))"
        by (simp add: heappush_def)
      have "dijkstra_inv G src (\<lambda>a b. P a b \<or> (a = v \<and> b = u)) ?s'"
      proof (rule inv_I)
        show "\<And>v d. dist_d ?s' v = Some d \<Longrightarrow> pathw G src v d"
          using inv_dist[OF inv] by simp
        show "\<And>v d x. dist_d ?s' v = Some d \<Longrightarrow> pathw G src v x \<Longrightarrow> d \<le> x"
          using inv_min[OF inv] by simp
        show "\<And>d' c w. (d', c, w) \<in> set (fringe ?s') \<Longrightarrow> pathw G src w d' \<and> map_of G w \<noteq> None"
          unfolding fr using inv_fringe[OF inv] pu node by auto
        show "dist_d ?s' src \<noteq> None \<or> (\<exists>c. (0, c, src) \<in> set (fringe ?s'))"
          unfolding fr using inv_src[OF inv] by auto
      next
        fix w x
        assume a: "seen_d ?s' w = Some x" "dist_d ?s' w = None"
        show "\<exists>c. (x, c, w) \<in> set (fringe ?s')"
        proof (cases "w = u")
          case True
          with a(1) have "x = d + cost" by simp
          with True show ?thesis unfolding fr by blast
        next
          case False
          with a have "seen_d s w = Some x" "dist_d s w = None" by simp_all
          from inv_seen[OF inv this] show ?thesis unfolding fr by blast
        qed
      next
        fix a da b y
        assume a: "dist_d ?s' a = Some da" "adj G a b = Some y" "P a b \<or> (a = v \<and> b = u)"
        then have da: "dist_d s a = Some da" by simp
        show "dist_d ?s' b \<noteq> None \<or> (\<exists>x. seen_d ?s' b = Some x \<and> x \<le> da + y)"
        proof (cases "b = u")
          case bu: True
          show ?thesis
          proof (cases "P a b")
            case False
            with a(3) have "a = v" by auto
            with a(1,2) dv e bu have "da = d" "y = cost" by auto
            with bu show ?thesis by simp
          next
            case True
            from inv_edge[OF inv da a(2) True] None bu
            obtain z where z: "seen_d s u = Some z" "z \<le> da + y" by auto
            with \<open>seen_d s u = None \<or> d + cost < the (seen_d s u)\<close>
            have "d + cost \<le> da + y" by auto
            with bu show ?thesis by simp
          qed
        next
          case False
          with a(3) have "P a b" by auto
          from inv_edge[OF inv da a(2) this] False show ?thesis by simp
        qed
      qed
      moreover have "dist_d ?s' = dist_d s" by simp
      ultimately show ?thesis using r by blast
    qed
  qed
qed

lemma relax_all_inv:
  assumes "dijkstra_inv G src P s"
    and "dist_d s v = Some d"
    and "\<And>u cost. (u, cost) \<in> set es \<Longrightarrow> adj G v u = Some cost \<and> map_of G u \<noteq> None"
  shows "\<exists>s'. relax_all d es s = Inr s' \<and> dist_d s' = dist_d s
           \<and> dijkstra_inv G src (\<lambda>a b. P a b \<or> (a = v \<and> b \<in> fst ` set es)) s'"
  using assms
proof (induction es arbitrary: s P)
  case Nil
  then show ?case by simp
next
  case (Cons e es)
  obtain u cost where e: "e = (u, cost)" by (cases e)
  have ed: "adj G v u = Some cost" and nd: "map_of G u \<noteq> None"
    using Cons.prems(3)[of u cost] e by simp_all
  from relax_inv[OF Cons.prems(1,2) ed nd] obtain s1 where
    r1: "relax d (u, cost) s = Inr s1" and d1: "dist_d s1 = dist_d s"
    and i1: "dijkstra_inv G src (\<lambda>a b. P a b \<or> (a = v \<and> b = u)) s1" by blast
  have dv1: "dist_d s1 v = Some d" using d1 Cons.prems(2) by simp
  have rest: "adj G v u' = Some cost' \<and> map_of G u' \<noteq> None"
    if "(u', cost') \<in> set es" for u' cost'
    using Cons.prems(3)[of u' cost'] that by simp
  from Cons.IH[OF i1 dv1 rest] obtain s' where
    r2: "relax_all d es s1 = Inr s'" and d2: "dist_d s' = dist_d s1"
    and i2: "dijkstra_inv G src
               (\<lambda>a b. (P a b \<or> (a = v \<and> b = u)) \<or> (a = v \<and> b \<in> fst ` set es)) s'" by blast
  have "dijkstra_inv G src (\<lambda>a b. P a b \<or> (a = v \<and> b \<in> fst ` set (e # es))) s'"
    by (rule inv_weaken[OF i2]) (auto simp: e)
  moreover have "relax_all d (e # es) s = Inr s'" using r1 r2 e by simp
  moreover have "dist_d s' = dist_d s" using d1 d2 by simp
  ultimately show ?case by blast
qed

lemma step_skip:
  assumes inv: "dijkstra_inv G src P s"
    and pop: "heappop (fringe s) = Some ((d, c, v), rest)"
    and fin: "dist_d s v \<noteq> None"
  shows "dijkstra_inv G src P (s\<lparr>fringe := rest\<rparr>)"
proof (rule inv_I)
  let ?s = "s\<lparr>fringe := rest\<rparr>"
  show "\<And>v d. dist_d ?s v = Some d \<Longrightarrow> pathw G src v d" using inv_dist[OF inv] by simp
  show "\<And>v d x. dist_d ?s v = Some d \<Longrightarrow> pathw G src v x \<Longrightarrow> d \<le> x"
    using inv_min[OF inv] by simp
  show "\<And>d c v. (d, c, v) \<in> set (fringe ?s) \<Longrightarrow> pathw G src v d \<and> map_of G v \<noteq> None"
    using inv_fringe[OF inv] heappop_subset[OF pop] by auto
  show "\<And>v dv u y. dist_d ?s v = Some dv \<Longrightarrow> adj G v u = Some y \<Longrightarrow> P v u \<Longrightarrow>
            dist_d ?s u \<noteq> None \<or> (\<exists>x. seen_d ?s u = Some x \<and> x \<le> dv + y)"
    using inv_edge[OF inv] by simp
  show "dist_d ?s src \<noteq> None \<or> (\<exists>c. (0, c, src) \<in> set (fringe ?s))"
  proof (cases "dist_d s src")
    case None
    with inv_src[OF inv] obtain k where k: "(0, k, src) \<in> set (fringe s)" by blast
    have "(0, k, src) \<noteq> (d, c, v)" using fin None by auto
    from heappop_keeps[OF pop k this] show ?thesis by auto
  next
    case (Some a)
    then show ?thesis by simp
  qed
  fix u x assume a: "seen_d ?s u = Some x" "dist_d ?s u = None"
  then have "seen_d s u = Some x" "dist_d s u = None" by simp_all
  from inv_seen[OF inv this] obtain k where k: "(x, k, u) \<in> set (fringe s)" by blast
  have "(x, k, u) \<noteq> (d, c, v)" using fin a(2) by auto
  from heappop_keeps[OF pop k this] show "\<exists>c. (x, c, u) \<in> set (fringe ?s)" by auto
qed

lemma step_final:
  assumes inv: "dijkstra_inv G src (\<lambda>a b. True) s" and nn: "nonneg G"
    and pop: "heappop (fringe s) = Some ((d, c, v), rest)"
    and nf: "dist_d s v = None"
  shows "dijkstra_inv G src (\<lambda>a b. a \<noteq> v) (s\<lparr>dist_d := (dist_d s)(v \<mapsto> d), fringe := rest\<rparr>)"
proof (rule inv_I)
  let ?s = "s\<lparr>dist_d := (dist_d s)(v \<mapsto> d), fringe := rest\<rparr>"
  have vin: "(d, c, v) \<in> set (fringe s)" by (rule heappop_Some(1)[OF pop])
  have pv: "pathw G src v d" using inv_fringe[OF inv vin] by simp
  show "\<And>w x. dist_d ?s w = Some x \<Longrightarrow> pathw G src w x"
    using inv_dist[OF inv] pv by (auto split: if_splits)
  show "\<And>d c v. (d, c, v) \<in> set (fringe ?s) \<Longrightarrow> pathw G src v d \<and> map_of G v \<noteq> None"
    using inv_fringe[OF inv] heappop_subset[OF pop] by auto
  show "\<And>a da u y. dist_d ?s a = Some da \<Longrightarrow> adj G a u = Some y \<Longrightarrow> a \<noteq> v \<Longrightarrow>
            dist_d ?s u \<noteq> None \<or> (\<exists>x. seen_d ?s u = Some x \<and> x \<le> da + y)"
    using inv_edge[OF inv] by auto
  show "dist_d ?s src \<noteq> None \<or> (\<exists>c. (0, c, src) \<in> set (fringe ?s))"
  proof (cases "dist_d ?s src")
    case None
    then have sv: "src \<noteq> v" and "dist_d s src = None" by (auto split: if_splits)
    with inv_src[OF inv] obtain k where k: "(0, k, src) \<in> set (fringe s)" by blast
    have "(0, k, src) \<noteq> (d, c, v)" using sv by auto
    from heappop_keeps[OF pop k this] show ?thesis by auto
  next
    case (Some a)
    then show ?thesis by simp
  qed
  {
    fix u x assume a: "seen_d ?s u = Some x" "dist_d ?s u = None"
    then have uv: "u \<noteq> v" and b: "seen_d s u = Some x" "dist_d s u = None"
      by (auto split: if_splits)
    from inv_seen[OF inv b] obtain k where k: "(x, k, u) \<in> set (fringe s)" by blast
    have "(x, k, u) \<noteq> (d, c, v)" using uv by auto
    from heappop_keeps[OF pop k this] show "\<exists>c. (x, c, u) \<in> set (fringe ?s)" by auto
  }
  fix w dw x assume a: "dist_d ?s w = Some dw" "pathw G src w x"
  show "dw \<le> x"
  proof (cases "w = v")
    case False
    with a(1) have "dist_d s w = Some dw" by simp
    from inv_min[OF inv this a(2)] show ?thesis .
  next
    case True
    with a(1) have dw: "dw = d" by simp
    from frontier[OF inv nn a(2)] True nf
    obtain e where e: "e \<in> set (fringe s)" "fst e \<le> x" by auto
    from heappop_least[OF pop e(1)] e(2) show ?thesis unfolding dw by simp
  qed
qed

text \<open>
  From a state that satisfies the invariant the loop returns (it raises nothing), and
  what it returns are the least path weights from the source to the nodes it reaches.
\<close>

lemma dijkstra_loop_correct:
  assumes "dijkstra_inv G src (\<lambda>a b. True) s" and "nonneg G" and "wf_graph G"
  shows "\<exists>r. dijkstra_loop G s = Inr r
            \<and> (\<forall>v d. r v = Some d \<longrightarrow> pathw G src v d \<and> (\<forall>x. pathw G src v x \<longrightarrow> d \<le> x))
            \<and> (\<forall>v x. pathw G src v x \<longrightarrow> r v \<noteq> None)"
  using assms
proof (induction G s rule: dijkstra_loop.induct)
  case (1 G s)
  note inv = "1.prems"(1) and nn = "1.prems"(2) and wf = "1.prems"(3)
  show ?case
  proof (cases "heappop (fringe s)")
    case None
    then have e: "fringe s = []" by (rule heappop_None)
    have r: "dijkstra_loop G s = Inr (dist_d s)" using None by simp
    have "\<forall>v x. pathw G src v x \<longrightarrow> dist_d s v \<noteq> None"
      using frontier[OF inv nn] e by fastforce
    moreover have "\<forall>v d. dist_d s v = Some d \<longrightarrow>
                     pathw G src v d \<and> (\<forall>x. pathw G src v x \<longrightarrow> d \<le> x)"
      using inv_dist[OF inv] inv_min[OF inv] by blast
    ultimately show ?thesis using r by simp
  next
    case (Some a)
    obtain d c v rest where a: "a = ((d, c, v), rest)" by (cases a) auto
    have pop: "heappop (fringe s) = Some ((d, c, v), rest)" using Some a by simp
    show ?thesis
    proof (cases "dist_d s v")
      case dv: (Some dv)
      have r: "dijkstra_loop G s = dijkstra_loop G (s\<lparr>fringe := rest\<rparr>)"
        using pop dv by simp
      have fin: "dist_d s v \<noteq> None" using dv by simp
      from "1.IH"(1)[OF pop refl refl refl fin step_skip[OF inv pop fin] nn wf]
      show ?thesis unfolding r .
    next
      case None
      have nf: "\<not> dist_d s v \<noteq> None" using None by simp
      let ?s1 = "s\<lparr>dist_d := (dist_d s)(v \<mapsto> d), fringe := rest\<rparr>"
      have i1: "dijkstra_inv G src (\<lambda>a b. a \<noteq> v) ?s1"
        by (rule step_final[OF inv nn pop None])
      have vin: "(d, c, v) \<in> set (fringe s)" by (rule heappop_Some(1)[OF pop])
      from inv_fringe[OF inv vin] obtain nbrs where nb: "map_of G v = Some nbrs" by auto
      from wf nb have dn: "distinct (map fst nbrs)"
        and tn: "\<forall>u \<in> fst ` set nbrs. map_of G u \<noteq> None"
        unfolding wf_graph_def by blast+
      have edges: "adj G v u = Some cost \<and> map_of G u \<noteq> None"
        if "(u, cost) \<in> set nbrs" for u cost
      proof
        show "adj G v u = Some cost" using that dn nb by (simp add: adj_def)
        show "map_of G u \<noteq> None" using that tn by force
      qed
      have dv1: "dist_d ?s1 v = Some d" by simp
      from relax_all_inv[OF i1 dv1 edges] obtain s' where
        ra: "relax_all d nbrs ?s1 = Inr s'"
        and i2: "dijkstra_inv G src (\<lambda>a b. a \<noteq> v \<or> (a = v \<and> b \<in> fst ` set nbrs)) s'"
        by blast
      have i3: "dijkstra_inv G src (\<lambda>a b. True) s'"
      proof (rule inv_weaken[OF i2])
        fix a b y assume ab: "adj G a b = Some y"
        show "a \<noteq> v \<or> (a = v \<and> b \<in> fst ` set nbrs)"
        proof (cases "a = v")
          case True
          with ab nb have "map_of nbrs b = Some y" by (simp add: adj_def)
          from map_of_SomeD[OF this] have "b \<in> fst ` set nbrs" by force
          with True show ?thesis by simp
        next
          case False
          then show ?thesis by simp
        qed
      qed
      have r: "dijkstra_loop G s = dijkstra_loop G s'"
        using pop None nb ra by simp
      from "1.IH"(2)[OF pop refl refl refl nf nb ra i3 nn wf]
      show ?thesis unfolding r .
    qed
  qed
qed

section \<open>All pairs of shortest paths\<close>

lemma dijkstra_multisource_correct:
  assumes node: "map_of G src \<noteq> None" and nn: "nonneg G" and wf: "wf_graph G"
  shows "\<exists>r. dijkstra_multisource G src = Inr r
            \<and> (\<forall>v d. r v = Some d \<longrightarrow> pathw G src v d \<and> (\<forall>x. pathw G src v x \<longrightarrow> d \<le> x))
            \<and> (\<forall>v x. pathw G src v x \<longrightarrow> r v \<noteq> None)"
proof -
  let ?s = "\<lparr>dist_d = Map.empty, seen_d = [src \<mapsto> 0],
             fringe = heappush [] (0, 0, src), counter = 1\<rparr>"
  have "dijkstra_inv G src (\<lambda>a b. True) ?s"
  proof (rule inv_I)
    show "\<And>d c v. (d, c, v) \<in> set (fringe ?s) \<Longrightarrow> pathw G src v d \<and> map_of G v \<noteq> None"
      using node pathw_refl[of G src] by (auto simp: heappush_def)
    show "\<And>u x. seen_d ?s u = Some x \<Longrightarrow> dist_d ?s u = None \<Longrightarrow> \<exists>c. (x, c, u) \<in> set (fringe ?s)"
      by (auto simp: heappush_def split: if_splits)
    show "dist_d ?s src \<noteq> None \<or> (\<exists>c. (0, c, src) \<in> set (fringe ?s))"
      by (simp add: heappush_def)
  qed simp_all
  from dijkstra_loop_correct[OF this nn wf] show ?thesis
    unfolding dijkstra_multisource_def .
qed

lemma all_pairs_correct:
  assumes "\<forall>n \<in> set ns. map_of G n \<noteq> None" and "nonneg G" and "wf_graph G"
  shows "\<exists>apsp. all_pairs G ns = Inr apsp \<and> map fst apsp = ns
            \<and> (\<forall>n r. (n, r) \<in> set apsp \<longrightarrow> dijkstra_multisource G n = Inr r)"
  using assms
proof (induction ns)
  case Nil
  show ?case by simp
next
  case (Cons n ns)
  from Cons.prems have "map_of G n \<noteq> None" by simp
  from dijkstra_multisource_correct[OF this Cons.prems(2,3)]
  obtain r where r: "dijkstra_multisource G n = Inr r" by blast
  from Cons.IH Cons.prems obtain apsp where a: "all_pairs G ns = Inr apsp" "map fst apsp = ns"
    "\<forall>n r. (n, r) \<in> set apsp \<longrightarrow> dijkstra_multisource G n = Inr r" by auto
  have s1: "all_pairs G (n # ns) = Inr ((n, r) # apsp)" using r a(1) by simp
  have s2: "map fst ((n, r) # apsp) = n # ns" using a(2) by simp
  have s3: "\<forall>n' r'. (n', r') \<in> set ((n, r) # apsp) \<longrightarrow> dijkstra_multisource G n' = Inr r'"
    using a(3) r by auto
  show ?case by (rule exI[of _ "(n, r) # apsp"]) (intro conjI s1 s2 s3)
qed

text \<open>What the dictionary of all pairs knows, in terms of the paths of the graph.\<close>

lemma apsp_lookup:
  assumes nn: "nonneg G" and wf: "wf_graph G"
    and ap: "all_pairs_dijkstra_path_length G = Inr apsp"
    and node: "map_of G a \<noteq> None"
  shows "known apsp a b = (\<exists>x. pathw G a b x)"
    and "path_length apsp a b = Some d \<Longrightarrow> pathw G a b d \<and> (\<forall>x. pathw G a b x \<longrightarrow> d \<le> x)"
proof -
  have nodes: "\<forall>n \<in> set (map fst G). map_of G n \<noteq> None"
    by (auto simp: map_of_eq_None_iff)
  from all_pairs_correct[OF nodes nn wf] ap
  have keys: "map fst apsp = map fst G"
    and runs: "\<forall>n r. (n, r) \<in> set apsp \<longrightarrow> dijkstra_multisource G n = Inr r"
    unfolding all_pairs_dijkstra_path_length_def by auto
  from node have "a \<in> fst ` set G" by (simp add: map_of_eq_None_iff)
  then have "a \<in> fst ` set apsp" using keys by (metis set_map)
  then obtain r where r: "map_of apsp a = Some r"
    by (cases "map_of apsp a") (auto simp: map_of_eq_None_iff)
  from runs map_of_SomeD[OF r] have run: "dijkstra_multisource G a = Inr r" by blast
  from dijkstra_multisource_correct[OF node nn wf] run
  have c1: "\<forall>v d. r v = Some d \<longrightarrow> pathw G a v d \<and> (\<forall>x. pathw G a v x \<longrightarrow> d \<le> x)"
    and c2: "\<forall>v x. pathw G a v x \<longrightarrow> r v \<noteq> None" by auto
  show "known apsp a b = (\<exists>x. pathw G a b x)"
    using r c1 c2 by (auto simp: known_def)
  show "path_length apsp a b = Some d \<Longrightarrow> pathw G a b d \<and> (\<forall>x. pathw G a b x \<longrightarrow> d \<le> x)"
    using r c1 by (simp add: path_length_def)
qed

lemma known_path_length: "known apsp a b = (path_length apsp a b \<noteq> None)"
  by (simp add: known_def path_length_def split: option.splits)

section \<open>The matrix and the rows\<close>

lemma fill_cell_value: "fill_cell apsp m i j = loc_set m i j (cell_value apsp i j)"
  by (simp add: fill_cell_def cell_value_def)

lemma inner_loop:
  "cells (fold (\<lambda>e m2. fill_cell apsp m2 st e) es m) (i, j) =
     (if i = st \<and> j \<in> set es then cell_value apsp i j else cells m (i, j))"
  "st \<in> set (index m) \<Longrightarrow> index (fold (\<lambda>e m2. fill_cell apsp m2 st e) es m) = index m"
  "set es \<subseteq> set (columns m) \<Longrightarrow> columns (fold (\<lambda>e m2. fill_cell apsp m2 st e) es m) = columns m"
  by (induction es arbitrary: m) (auto simp: fill_cell_value loc_set_def)

lemma outer_loop:
  "cells (fold (\<lambda>st m1. fold (\<lambda>e m2. fill_cell apsp m2 st e) es m1) ss m) (i, j) =
     (if i \<in> set ss \<and> j \<in> set es then cell_value apsp i j else cells m (i, j))"
  "set ss \<subseteq> set (index m) \<Longrightarrow>
     index (fold (\<lambda>st m1. fold (\<lambda>e m2. fill_cell apsp m2 st e) es m1) ss m) = index m"
  "set es \<subseteq> set (columns m) \<Longrightarrow>
     columns (fold (\<lambda>st m1. fold (\<lambda>e m2. fill_cell apsp m2 st e) es m1) ss m) = columns m"
  by (induction ss arbitrary: m) (auto simp: inner_loop)

lemma populate_frame:
  "index (populate apsp toll (new_frame toll toll)) = toll"
  "columns (populate apsp toll (new_frame toll toll)) = toll"
  "cells (populate apsp toll (new_frame toll toll)) (i, j) =
     (if i \<in> set toll \<and> j \<in> set toll then cell_value apsp i j else None)"
  by (simp_all add: populate_def outer_loop new_frame_def)

lemma set_unique: "set (unique xs) = set xs"
  by (induction xs) auto

lemma distinct_unique: "distinct (unique xs)"
  by (induction xs) (auto simp: set_unique)

text \<open>
  The shape of every matrix the function returns: its labels are the sorted distinct
  values of \<open>id_start\<close>, on both axes.
\<close>

lemma matrix_shape:
  assumes "calculate_distance_matrix df = Inr m"
  shows "index m = sort (unique (map fst df))" and "columns m = index m"
    and "\<exists>apsp. all_pairs_dijkstra_path_length (build_graph [] df) = Inr apsp
           \<and> (\<forall>i j. cells m (i, j) =
                 (if i \<in> fst ` set df \<and> j \<in> fst ` set df then cell_value apsp i j else None))"
proof -
  from assms obtain apsp where
    ap: "all_pairs_dijkstra_path_length (build_graph [] df) = Inr apsp"
    and m: "m = populate apsp (sort (unique (map fst df)))
                  (new_frame (sort (unique (map fst df))) (sort (unique (map fst df))))"
    by (auto simp: calculate_distance_matrix_def Let_def split: sum.splits)
  show "index m = sort (unique (map fst df))" unfolding m by (rule populate_frame(1))
  show "columns m = index m" unfolding m by (simp only: populate_frame(1,2))
  have "\<forall>i j. cells m (i, j) =
                 (if i \<in> fst ` set df \<and> j \<in> fst ` set df then cell_value apsp i j else None)"
    unfolding m by (simp add: populate_frame(3) set_unique)
  with ap show "\<exists>apsp. all_pairs_dijkstra_path_length (build_graph [] df) = Inr apsp
           \<and> (\<forall>i j. cells m (i, j) =
                 (if i \<in> fst ` set df \<and> j \<in> fst ` set df then cell_value apsp i j else None))"
    by blast
qed

lemma labels_start: "calculate_distance_matrix df = Inr m \<Longrightarrow> set (index m) = fst ` set df"
  by (simp add: matrix_shape(1) set_unique)

lemma adj_rows: "adj (build_graph [] df) a b = final_weight df a b"
proof -
  have "adj [] a b = None" by (simp add: adj_def)
  then show ?thesis by (simp add: adj_build_graph split: option.splits)
qed

lemma valid_graph:
  assumes "list_all (\<lambda>(a, b, d). 0 \<le> d) df"
  shows "nonneg (build_graph [] df)" and "wf_graph (build_graph [] df)"
proof -
  show "wf_graph (build_graph [] df)" by (rule wf_graph_build[OF wf_graph_empty])
  show "nonneg (build_graph [] df)"
    unfolding nonneg_def adj_rows
    using assms final_weight_SomeD by (fastforce simp: list_all_iff)
qed

lemma start_is_node: "i \<in> fst ` set df \<Longrightarrow> map_of (build_graph [] df) i \<noteq> None"
  using dom_build_graph[of "[]" df] by (auto simp: dom_def)

lemma pathw_route: "pathw (build_graph [] df) a b x = route df a b x"
proof
  show "pathw (build_graph [] df) a b x \<Longrightarrow> route df a b x"
    by (induction rule: pathw.induct) (auto simp: adj_rows intro: route.intros)
  show "route df a b x \<Longrightarrow> pathw (build_graph [] df) a b x"
    by (induction rule: route.induct) (auto simp: adj_rows[symmetric] intro: pathw.intros)
qed


lemma route_sym: "route df a b x \<Longrightarrow> route df b a x"
proof -
  have "wf_graph (build_graph [] df)" by (rule wf_graph_build[OF wf_graph_empty])
  then have "\<forall>v u. adj (build_graph [] df) v u = adj (build_graph [] df) u v"
    unfolding wf_graph_def by blast
  then show "route df a b x \<Longrightarrow> route df b a x"
    unfolding pathw_route[symmetric] by (rule pathw_rev[rotated])
qed

text \<open>
  For a valid input the function returns a matrix, and the cell of two labels is zero on
  the diagonal, the least weight of a route between them when there is a route, and
  missing otherwise.
\<close>

lemma valid_matrix:
  assumes v: "valid_input df"
  shows "\<exists>m. calculate_distance_matrix df = Inr m
           \<and> index m = sort (unique (map fst df)) \<and> columns m = index m
           \<and> (\<forall>i j. i \<in> set (index m) \<longrightarrow> j \<in> set (index m) \<longrightarrow>
                 (i = j \<longrightarrow> cells m (i, j) = Some 0)
               \<and> (i \<noteq> j \<longrightarrow> (cells m (i, j) = None) = (\<not> (\<exists>x. route df i j x)))
               \<and> (\<forall>d. i \<noteq> j \<longrightarrow> cells m (i, j) = Some d \<longrightarrow>
                       route df i j d \<and> (\<forall>x. route df i j x \<longrightarrow> d \<le> x)))"
proof -
  let ?G = "build_graph [] df"
  from v have la: "list_all (\<lambda>(a, b, d). 0 \<le> d) df" by (simp add: valid_input_def)
  note nn = valid_graph(1)[OF la] and wf = valid_graph(2)[OF la]
  have nodes: "\<forall>n \<in> set (map fst ?G). map_of ?G n \<noteq> None"
    by (auto simp: map_of_eq_None_iff)
  from all_pairs_correct[OF nodes nn wf] obtain apsp where
    ap: "all_pairs_dijkstra_path_length ?G = Inr apsp"
    unfolding all_pairs_dijkstra_path_length_def by blast
  define m where "m = populate apsp (sort (unique (map fst df)))
                  (new_frame (sort (unique (map fst df))) (sort (unique (map fst df))))"
  have r: "calculate_distance_matrix df = Inr m"
    using ap by (simp add: calculate_distance_matrix_def m_def Let_def)
  note sh = matrix_shape[OF r]
  from sh(3) ap have cells: "\<And>i j. cells m (i, j) =
       (if i \<in> fst ` set df \<and> j \<in> fst ` set df then cell_value apsp i j else None)"
    by simp
  have lab: "set (index m) = fst ` set df" by (rule labels_start[OF r])
  have main: "(i = j \<longrightarrow> cells m (i, j) = Some 0)
               \<and> (i \<noteq> j \<longrightarrow> (cells m (i, j) = None) = (\<not> (\<exists>x. route df i j x)))
               \<and> (\<forall>d. i \<noteq> j \<longrightarrow> cells m (i, j) = Some d \<longrightarrow>
                       route df i j d \<and> (\<forall>x. route df i j x \<longrightarrow> d \<le> x))"
    if i: "i \<in> set (index m)" and j: "j \<in> set (index m)" for i j
  proof -
    from i j lab have c: "cells m (i, j) = cell_value apsp i j" by (simp add: cells)
    have ni: "map_of ?G i \<noteq> None" and nj: "map_of ?G j \<noteq> None"
      using i j lab start_is_node by blast+
    note ki = apsp_lookup(1)[OF nn wf ap ni, of j, unfolded pathw_route]
    note kj = apsp_lookup(1)[OF nn wf ap nj, of i, unfolded pathw_route]
    note li = apsp_lookup(2)[OF nn wf ap ni, of j, unfolded pathw_route]
    have sym: "known apsp j i = known apsp i j"
      unfolding ki kj using route_sym by blast
    have cv: "i \<noteq> j \<Longrightarrow> cell_value apsp i j = path_length apsp i j"
      using sym by (auto simp: cell_value_def known_path_length)
    have a: "i = j \<longrightarrow> cells m (i, j) = Some 0"
      unfolding c by (simp add: cell_value_def)
    have b: "i \<noteq> j \<longrightarrow> (cells m (i, j) = None) = (\<not> (\<exists>x. route df i j x))"
      unfolding c using cv ki by (auto simp: known_path_length)
    have d: "\<forall>d. i \<noteq> j \<longrightarrow> cells m (i, j) = Some d \<longrightarrow>
                       route df i j d \<and> (\<forall>x. route df i j x \<longrightarrow> d \<le> x)"
      unfolding c using cv li by auto
    from a b d show ?thesis by blast
  qed
  show ?thesis
    by (rule exI[of _ m]) (use r sh(1,2) main in blast)
qed

section \<open>Properties of calculate\_distance\_matrix on valid inputs\<close>

text \<open>
  Claim C5.  In every matrix the function returns, for rows from a location to itself
  too, every diagonal cell is 0.
\<close>

theorem diagonal_is_zero:
  assumes "calculate_distance_matrix df = Inr m"
  shows "\<forall>i \<in> set (index m). loc_get m i i = Inr (Some 0)"
proof
  fix i assume i: "i \<in> set (index m)"
  from matrix_shape(3)[OF assms] obtain apsp where
    c: "\<forall>i j. cells m (i, j) =
          (if i \<in> fst ` set df \<and> j \<in> fst ` set df then cell_value apsp i j else None)"
    by blast
  have "i \<in> fst ` set df" using i labels_start[OF assms] by simp
  then have "cells m (i, i) = Some 0" using c by (simp add: cell_value_def)
  then show "loc_get m i i = Inr (Some 0)"
    using i matrix_shape(2)[OF assms] by (simp add: loc_get_def)
qed

theorem diagonal_is_zero_witness:
  "\<exists>m. calculate_distance_matrix [(1, 1, 5), (1, 2, 3), (2, 1, 3)] = Inr m
        \<and> index m = [1, 2]
        \<and> loc_get m 1 1 = Inr (Some 0) \<and> loc_get m 2 2 = Inr (Some 0)"
proof -
  have "valid_input [(1, 1, 5), (1, 2, 3), (2, 1, 3)]"
    by (simp add: valid_input_def)
  from valid_matrix[OF this] obtain m where
    r: "calculate_distance_matrix [(1, 1, 5), (1, 2, 3), (2, 1, 3)] = Inr m" by blast
  have i: "index m = [1, 2]" using matrix_shape(1)[OF r] by simp
  from diagonal_is_zero[OF r] i
  have "loc_get m 1 1 = Inr (Some 0)" "loc_get m 2 2 = Inr (Some 0)" by simp_all
  with r i show ?thesis by blast
qed





section \<open>Negative weights\<close>


















section \<open>When calculate\_distance\_matrix raises\<close>




section \<open>The labels of the matrix\<close>

text \<open>
  Claim C1 at the input \<open>[(1, 2, 10)]\<close>: location 2 is an endpoint of the edge, but
  the matrix has the one label 1; a read of the cell of 2 raises \<open>KeyError\<close>.
\<close>

theorem labels_omit_id_end:
  "case calculate_distance_matrix [(1, 2, 10)] of
     Inl err \<Rightarrow> False
   | Inr m \<Rightarrow> index m = [1] \<and> columns m = [1] \<and> loc_get m 1 1 = Inr (Some 0)
       \<and> loc_get m 2 2 = Inl KeyError \<and> loc_get m 1 2 = Inl KeyError"
  by code_simp

text \<open>
  Claim C7 at its input \<open>[(1, 2, 10), (2, 3, 5)]\<close> (A, B, C are 1, 2, 3): the cells
  of A and B are as the claim says, but C is no label of the matrix, so
  \<open>matrix[A][C]\<close>, \<open>matrix[B][C]\<close> and \<open>matrix[C][C]\<close> do not exist.
\<close>

theorem chain_omits_last_location:
  "case calculate_distance_matrix [(1, 2, 10), (2, 3, 5)] of
     Inl err \<Rightarrow> False
   | Inr m \<Rightarrow> index m = [1, 2] \<and> columns m = [1, 2]
       \<and> loc_get m 1 2 = Inr (Some 10) \<and> loc_get m 2 1 = Inr (Some 10)
       \<and> loc_get m 1 1 = Inr (Some 0) \<and> loc_get m 2 2 = Inr (Some 0)
       \<and> loc_get m 1 3 = Inl KeyError \<and> loc_get m 2 3 = Inl KeyError
       \<and> loc_get m 3 3 = Inl KeyError"
  by code_simp

text \<open>
  Claim C6 at its input \<open>[(1, 2, 4), (1, 2, 9)]\<close> (A, B are 1, 2): the graph keeps
  the last weight 9 for the pair, but B is no label of the matrix, so
  \<open>matrix[A][B]\<close> does not exist.  With the second row turned round, B is a label
  and the cell is 9.
\<close>

theorem duplicate_pair_has_no_cell:
  "(case calculate_distance_matrix [(1, 2, 4), (1, 2, 9)] of
      Inl err \<Rightarrow> False
    | Inr m \<Rightarrow> index m = [1] \<and> columns m = [1] \<and> loc_get m 1 2 = Inl KeyError)
   \<and> adj (build_graph [] [(1, 2, 4), (1, 2, 9)]) 1 2 = Some 9
   \<and> (case calculate_distance_matrix [(1, 2, 4), (2, 1, 9)] of
        Inl err \<Rightarrow> False
      | Inr m \<Rightarrow> loc_get m 1 2 = Inr (Some 9) \<and> loc_get m 2 1 = Inr (Some 9))"
  by code_simp

end
